theory Spec2Isabelle
  imports Complex_Main "HOL-Library.Word" "HOL-Library.Log_Nat" "HOL-Library.Monad_Syntax"
begin

unbundle bit_operations_syntax

section \<open>The numeric type \<open>arithmetic_t\<close>\<close>

text \<open>
  Line 18 makes \<open>arithmetic_t\<close> the type \<open>double_t\<close>, taken here as the IEEE 754 binary64
  format in the default rounding mode (round to nearest, ties to even). A value is a
  rational number \<open>Fin q\<close>, one of the two infinities, or a NaN. The two zeros are one
  value: they compare equal and hash alike, and no operation below tells them apart.
\<close>

datatype arithmetic_t = Fin rat | PInf | NInf | NaN

text \<open>The largest finite value, \<open>(2^53 - 1) * 2^971\<close>.\<close>

definition dbl_max :: rat where
  "dbl_max = (2 ^ 53 - 1) * 2 ^ 971"

text \<open>
  The binary exponent \<open>\<lfloor>log\<^sub>2 q\<rfloor>\<close> of a positive rational, from the bit lengths of its
  numerator and denominator.
\<close>

definition expo :: "rat \<Rightarrow> int" where
  "expo q =
     (let (a, b) = quotient_of q; d = bitlen a - bitlen b
      in if 2 powi d \<le> q then d else d - 1)"

text \<open>Rounding to the nearest integer, a tie going to the even neighbour.\<close>

definition round_half_even :: "rat \<Rightarrow> int" where
  "round_half_even q =
     (let f = \<lfloor>q\<rfloor>; d = q - of_int f
      in if d < 1 / 2 then f
         else if 1 / 2 < d then f + 1
         else if even f then f else f + 1)"

text \<open>
  The result of an arithmetic operation whose exact value is \<open>q\<close>: \<open>q\<close> is rounded to
  the nearest multiple of the unit in the last place of its binade (53 significant
  bits, the exponent not below that of the subnormal range), and a result beyond the
  largest finite value becomes an infinity.
\<close>

definition rnd :: "rat \<Rightarrow> arithmetic_t" where
  "rnd q =
     (if q = 0 then Fin 0
      else
        let e = max (expo \<bar>q\<bar>) (- 1022);
            ulp = 2 powi (e - 52);
            r = of_int (round_half_even (q / ulp)) * ulp
        in if dbl_max < r then PInf
           else if r < - dbl_max then NInf
           else Fin r)"

text \<open>\<open>x + y\<close> on \<open>arithmetic_t\<close>.\<close>

fun dadd :: "arithmetic_t \<Rightarrow> arithmetic_t \<Rightarrow> arithmetic_t" where
  "dadd NaN y = NaN"
| "dadd x NaN = NaN"
| "dadd PInf NInf = NaN"
| "dadd NInf PInf = NaN"
| "dadd PInf y = PInf"
| "dadd NInf y = NInf"
| "dadd x PInf = PInf"
| "dadd x NInf = NInf"
| "dadd (Fin a) (Fin b) = rnd (a + b)"

text \<open>\<open>x - y\<close> on \<open>arithmetic_t\<close>.\<close>

fun dsub :: "arithmetic_t \<Rightarrow> arithmetic_t \<Rightarrow> arithmetic_t" where
  "dsub NaN y = NaN"
| "dsub x NaN = NaN"
| "dsub PInf PInf = NaN"
| "dsub NInf NInf = NaN"
| "dsub PInf y = PInf"
| "dsub NInf y = NInf"
| "dsub x PInf = NInf"
| "dsub x NInf = PInf"
| "dsub (Fin a) (Fin b) = rnd (a - b)"

text \<open>\<open>x <= y\<close> on \<open>arithmetic_t\<close>: every comparison with a NaN is false.\<close>

fun dle :: "arithmetic_t \<Rightarrow> arithmetic_t \<Rightarrow> bool" where
  "dle NaN y = False"
| "dle x NaN = False"
| "dle NInf y = True"
| "dle x PInf = True"
| "dle PInf y = False"
| "dle x NInf = False"
| "dle (Fin a) (Fin b) = (a \<le> b)"

section \<open>Fibonacci: \<open>fib\<close> and \<open>fib_memo\<close>\<close>

text \<open>
  \<open>fib\<close> (lines 44-48) at \<open>t = arithmetic_t\<close>. The recursion need not end (see
  \<open>fib_memo\<close> below), so the function returns an option and \<open>None\<close> is the call that
  never returns.
\<close>

partial_function (option) fib :: "arithmetic_t \<Rightarrow> arithmetic_t option" where
  "fib n =
     (if dle n (Fin 1) then Some (Fin 1)
      else do {
        a \<leftarrow> fib (dsub n (Fin 1));
        b \<leftarrow> fib (dsub n (Fin 2));
        Some (dadd a b)
      })"

declare fib.simps [code]

text \<open>
  The closed recursive definition as section 8 of the specification words it:
  \<open>fib(0) = 1\<close>, \<open>fib(1) = 1\<close>, \<open>fib(n) = fib(n-1) + fib(n-2)\<close>.
\<close>

fun fib_spec :: "nat \<Rightarrow> nat" where
  "fib_spec 0 = 1"
| "fib_spec (Suc 0) = 1"
| "fib_spec (Suc (Suc n)) = fib_spec (Suc n) + fib_spec n"

text \<open>
  The global table \<open>fib_memo_cache\<close> (line 50), a \<open>std::unordered_map\<close> from
  \<open>arithmetic_t\<close> to \<open>arithmetic_t\<close>, empty when the program starts.
\<close>

type_synonym fib_cache = "arithmetic_t \<rightharpoonup> arithmetic_t"

definition fib_memo_cache :: fib_cache where
  "fib_memo_cache = Map.empty"

text \<open>
  \<open>cache.find(n)\<close>: keys are compared with \<open>==\<close>, and a NaN equals nothing, itself
  included, so a NaN key is never found.
\<close>

definition cache_find :: "fib_cache \<Rightarrow> arithmetic_t \<Rightarrow> arithmetic_t option" where
  "cache_find c n = (if n = NaN then None else c n)"

text \<open>
  \<open>cache[n]\<close> as an rvalue: the value stored under \<open>n\<close>; a key that is not found is
  inserted first with the value-initialised \<open>0.0\<close>.
\<close>

definition cache_index :: "fib_cache \<Rightarrow> arithmetic_t \<Rightarrow> arithmetic_t \<times> fib_cache" where
  "cache_index c n =
     (case cache_find c n of
        Some v \<Rightarrow> (v, c)
      | None \<Rightarrow> (Fin 0, c(n \<mapsto> Fin 0)))"

text \<open>
  \<open>fib_memo\<close> (lines 51-56), the table passed in and returned. In the assignment of
  line 54 the right-hand side is evaluated before \<open>fib_memo_cache[n]\<close> (the order
  fixed since C++17), so \<open>n\<close> enters the table only after both recursive calls have
  returned. The two operands of \<open>+\<close> are evaluated left to right here, as section 4.3
  of the specification describes it. A call that never returns is \<open>None\<close>. The
  depth of the recursion is not bounded here: \<open>fib_memo_frames\<close> below is the same
  function on a stack of a given size.
\<close>

partial_function (option) fib_memo ::
    "arithmetic_t \<Rightarrow> fib_cache \<Rightarrow> (arithmetic_t \<times> fib_cache) option" where
  "fib_memo n c =
     (case cache_find c n of
        Some v \<Rightarrow> Some (cache_index c n)
      | None \<Rightarrow>
          if dle n (Fin 1) then Some (cache_index (c(n \<mapsto> Fin 1)) n)
          else do {
            (a, c1) \<leftarrow> fib_memo (dsub n (Fin 1)) c;
            (b, c2) \<leftarrow> fib_memo (dsub n (Fin 2)) c1;
            Some (cache_index (c2(n \<mapsto> dadd a b)) n)
          })"

declare fib_memo.simps [code]


text \<open>
  The tables the program can hold: the empty one, and the one any returning call of
  \<open>fib_memo\<close> leaves behind.
\<close>

inductive reachable :: "fib_cache \<Rightarrow> bool" where
  init: "reachable fib_memo_cache"
| step: "reachable c \<Longrightarrow> fib_memo x c = Some (v, c') \<Longrightarrow> reachable c'"

text \<open>
  Two properties of a table. Its values agree with \<open>fib\<close> when every key that is
  found holds what \<open>fib\<close> returns for it.
\<close>

definition values_agree :: "fib_cache \<Rightarrow> bool" where
  "values_agree c \<longleftrightarrow> (\<forall>n v. cache_find c n = Some v \<longrightarrow> fib n = Some v)"

text \<open>
  A table is closed under the recursion when, with every key above 1 that is found, the
  two arguments of the recursive calls for it are found too.
\<close>

definition sub_closed :: "fib_cache \<Rightarrow> bool" where
  "sub_closed c \<longleftrightarrow>
     (\<forall>n. cache_find c n \<noteq> None \<and> \<not> dle n (Fin 1) \<longrightarrow>
        cache_find c (dsub n (Fin 1)) \<noteq> None \<and> cache_find c (dsub n (Fin 2)) \<noteq> None)"

section \<open>Composite key hasher: \<open>tuple_hash\<close>\<close>

text \<open>
  \<open>size_t\<close> is taken as the 64-bit unsigned integer of the usual LP64 targets:
  addition wraps, \<open>hash_value << 6\<close> drops the bits shifted out and
  \<open>hash_value >> 2\<close> is a logical shift.
\<close>

type_synonym size_t = "64 word"

text \<open>
  The literal \<open>0x9e3779b9\<close> of line 72, converted to \<open>size_t\<close>.
\<close>

definition mix_constant :: size_t where
  "mix_constant = 0x9e3779b9"

text \<open>
  \<open>tuple_hash<T, Ts...>::operator()\<close> (lines 67-76). A tuple is the list of its
  elements; \<open>ty\<close> gives the C++ type of an element and \<open>h\<close> its \<open>std::hash\<close>.

  The primary template \<open>tuple_hash<Ts...>\<close> (lines 64-65) is declared and never
  defined, and the only specialisation needs a first element: there is no hasher for the
  empty tuple, which is the result \<open>None\<close>. For a non-empty tuple the hash of the
  first element is taken, and when further elements follow (\<open>sizeof...(Ts) > 0\<close>) it is
  mixed with the hash that the recursive instance computes for the tuple of the
  remaining elements. That tuple is built with \<open>std::get<Ts>(t)...\<close>, which selects
  by type and compiles only when each of the types occurs once in the tuple; then it
  selects the remaining elements in their order. A tuple with a repeated type has no
  hasher either.
\<close>

fun tuple_hash :: "('a \<Rightarrow> 't) \<Rightarrow> ('a \<Rightarrow> size_t) \<Rightarrow> 'a list \<Rightarrow> size_t option" where
  "tuple_hash ty h [] = None"
| "tuple_hash ty h (x # xs) =
     (let hash_value = h x in
      if length xs > 0 then
        (if distinct (map ty (x # xs)) then
           (case tuple_hash ty h xs of
              None \<Rightarrow> None
            | Some rest \<Rightarrow>
                Some (hash_value XOR
                      (rest + mix_constant + push_bit 6 hash_value + drop_bit 2 hash_value)))
         else None)
      else Some hash_value)"

text \<open>
  The combining step as section 4.1 of the specification words it: the running hash
  \<open>h\<close> and the hash \<open>e\<close> of the next element give
  \<open>h XOR (e + K + (h << 6) + (h >> 2))\<close>.
\<close>

definition spec_combine :: "size_t \<Rightarrow> size_t \<Rightarrow> size_t" where
  "spec_combine h e = h XOR (e + mix_constant + push_bit 6 h + drop_bit 2 h)"

text \<open>
  The algorithm as the specification words it: start with the hash of the first element
  and fold the remaining elements in from left to right.
\<close>

fun spec_tuple_hash :: "('a \<Rightarrow> size_t) \<Rightarrow> 'a list \<Rightarrow> size_t option" where
  "spec_tuple_hash h [] = None"
| "spec_tuple_hash h (x # xs) = Some (foldl (\<lambda>acc y. spec_combine acc (h y)) (h x) xs)"

text \<open>
  Elements for the examples: values of the three types \<open>unsigned char\<close>,
  \<open>unsigned short\<close> and \<open>size_t\<close>, hashed by conversion to \<open>size_t\<close> (what
  libstdc++ and libc++ do for the integer types).
\<close>

datatype elem = UChar "8 word" | UShort "16 word" | Size size_t

datatype elem_type = T_uchar | T_ushort | T_size

fun type_of_elem :: "elem \<Rightarrow> elem_type" where
  "type_of_elem (UChar v) = T_uchar"
| "type_of_elem (UShort v) = T_ushort"
| "type_of_elem (Size v) = T_size"

fun hash_elem :: "elem \<Rightarrow> size_t" where
  "hash_elem (UChar v) = ucast v"
| "hash_elem (UShort v) = ucast v"
| "hash_elem (Size v) = v"

section \<open>Memoization adapter: \<open>memo\<close>\<close>

text \<open>
  What \<open>memo<return_t, args_t...>\<close> takes from its type arguments. The key is the
  tuple of the arguments, and the table compares keys with \<open>operator==\<close>: this is
  equality of values, except that a value that does not equal itself (a tuple with a NaN
  in it) equals nothing. \<open>equals_itself\<close> tells the two kinds of key apart, and
  \<open>value_init\<close> is the value-initialised \<open>return_t()\<close> that \<open>cache[key]\<close> inserts
  for a key it does not find. The entries made under a key that does not equal itself
  are never found again; the table below keeps the last of them in their place.
\<close>

record ('k, 'v) memo_types =
  equals_itself :: "'k \<Rightarrow> bool"
  value_init :: 'v

text \<open>
  What one invocation of the wrapped callable does, from its arguments and the state of
  the world it starts in: it returns a value or throws, leaving a new state of the world,
  or it calls the functor that wraps it (a callable can hold a reference to its own
  wrapper) and goes on with what that call returned or threw and with the world the call
  left. The table is private to the functor: the callable reaches it through such calls
  only.
\<close>

datatype ('k, 'v, 'e, 'w) body =
    Return 'v 'w
  | Throw 'e 'w
  | Call 'k 'w "('e + 'v) \<Rightarrow> 'w \<Rightarrow> ('k, 'v, 'e, 'w) body"

type_synonym ('k, 'v, 'e, 'w) callable = "'k \<Rightarrow> 'w \<Rightarrow> ('k, 'v, 'e, 'w) body"

text \<open>
  The functor as its callers see it: a key, the table and the world go in; the result
  (\<open>Inr\<close>) or the exception (\<open>Inl\<close>) comes out with the new table and world. \<open>None\<close>
  is the call that does not return because the stack has no room for it.
\<close>

type_synonym ('k, 'v, 'e, 'w) wrapper =
  "'k \<Rightarrow> ('k \<rightharpoonup> 'v) \<times> 'w \<Rightarrow> (('e + 'v) \<times> (('k \<rightharpoonup> 'v) \<times> 'w)) option"

text \<open>
  \<open>memo\<close> (lines 85-95) builds the functor around an empty table (line 87), which the
  functor owns.
\<close>

definition memo :: "'k \<rightharpoonup> 'v" where
  "memo = Map.empty"

text \<open>\<open>cache.find(key)\<close> (line 90): a key that does not equal itself is never found.\<close>

definition memo_find :: "('k, 'v) memo_types \<Rightarrow> ('k \<rightharpoonup> 'v) \<Rightarrow> 'k \<Rightarrow> 'v option" where
  "memo_find T cache key = (if equals_itself T key then cache key else None)"

text \<open>
  \<open>cache[key]\<close> as an rvalue (line 93): the value stored under \<open>key\<close>; a key that is
  not found is inserted first with the value-initialised \<open>return_t()\<close>.
\<close>

definition memo_index ::
    "('k, 'v) memo_types \<Rightarrow> ('k \<rightharpoonup> 'v) \<Rightarrow> 'k \<Rightarrow> 'v \<times> ('k \<rightharpoonup> 'v)" where
  "memo_index T cache key =
     (case memo_find T cache key of
        Some v \<Rightarrow> (v, cache)
      | None \<Rightarrow> (value_init T, cache(key \<mapsto> value_init T)))"

text \<open>
  Running one invocation of the callable, \<open>self\<close> being the functor its calls reach.
\<close>

primrec run_body ::
    "('k, 'v, 'e, 'w) wrapper \<Rightarrow> ('k, 'v, 'e, 'w) body \<Rightarrow> ('k \<rightharpoonup> 'v) \<Rightarrow>
     (('e + 'v) \<times> (('k \<rightharpoonup> 'v) \<times> 'w)) option" where
  "run_body self (Return v w) cache = Some (Inr v, (cache, w))"
| "run_body self (Throw e w) cache = Some (Inl e, (cache, w))"
| "run_body self (Call k w cont) cache =
     (case self k (cache, w) of
        None \<Rightarrow> None
      | Some (r, (cache', w')) \<Rightarrow> run_body self (cont r w') cache')"

text \<open>
  One call of the functor (lines 88-94) with room on the stack for \<open>frames\<close> nested
  calls of it. When the key is found, \<open>cache[key]\<close> is returned. Otherwise \<open>func\<close> is
  called; in the assignment of line 91 the call is evaluated before \<open>cache[key]\<close> (the
  order fixed since C++17), so an exception leaves the table as the callable's own calls
  of the functor left it and goes on to the caller, and a result is stored only when
  \<open>func\<close> has returned. What is returned is \<open>cache[key]\<close>, looked up again (line 93).
\<close>

primrec memo_call ::
    "nat \<Rightarrow> ('k, 'v) memo_types \<Rightarrow> ('k, 'v, 'e, 'w) callable \<Rightarrow> ('k, 'v, 'e, 'w) wrapper" where
  "memo_call 0 T func = (\<lambda>key s. None)"
| "memo_call (Suc frames) T func =
     (\<lambda>key s.
        case s of
          (cache, w) \<Rightarrow>
            (case memo_find T cache key of
               Some stored \<Rightarrow>
                 (case memo_index T cache key of (v, cache') \<Rightarrow> Some (Inr v, (cache', w)))
             | None \<Rightarrow>
                 (case run_body (memo_call frames T func) (func key w) cache of
                    None \<Rightarrow> None
                  | Some (Inl e, (cache', w')) \<Rightarrow> Some (Inl e, (cache', w'))
                  | Some (Inr r, (cache', w')) \<Rightarrow>
                      (case memo_index T (cache'(key \<mapsto> r)) key of
                         (v, cache'') \<Rightarrow> Some (Inr v, (cache'', w'))))))"

text \<open>
  A caller making one call after the other, as \<open>test_memo\<close> does in lines 138-146,
  and going on after a call that threw.
\<close>

fun memo_calls ::
    "nat \<Rightarrow> ('k, 'v) memo_types \<Rightarrow> ('k, 'v, 'e, 'w) callable \<Rightarrow> 'k list \<Rightarrow>
     ('k \<rightharpoonup> 'v) \<times> 'w \<Rightarrow> (('e + 'v) list \<times> (('k \<rightharpoonup> 'v) \<times> 'w)) option" where
  "memo_calls frames T func [] s = Some ([], s)"
| "memo_calls frames T func (key # keys) s =
     (case memo_call frames T func key s of
        None \<Rightarrow> None
      | Some (r, s1) \<Rightarrow>
          (case memo_calls frames T func keys s1 of
             None \<Rightarrow> None
           | Some (rs, s2) \<Rightarrow> Some (r # rs, s2)))"


text \<open>
  A callable that makes no call of the functor is a function from the arguments and the
  world to the result or exception and the new world. A callable that counts its
  invocations, sleeps or fails on some attempts is such a function.
\<close>

type_synonym ('k, 'v, 'e, 'w) plain_callable = "'k \<Rightarrow> 'w \<Rightarrow> ('e + 'v) \<times> 'w"

definition plain :: "('k, 'v, 'e, 'w) plain_callable \<Rightarrow> ('k, 'v, 'e, 'w) callable" where
  "plain g key w = (case g key w of (Inl e, w') \<Rightarrow> Throw e w' | (Inr v, w') \<Rightarrow> Return v w')"






text \<open>
  \<open>slow_func\<close> (lines 58-62): the world is the number of seconds slept so far.
  \<open>std::chrono::seconds\<close> holds a signed 64-bit count, so the argument converts to a
  negative duration from \<open>2^63\<close> on, and \<open>sleep_for\<close> returns at once for a duration
  that is not positive.
\<close>

definition slow_func :: "(size_t, size_t, unit, nat) plain_callable" where
  "slow_func seconds slept =
     (Inr seconds, if 0 < sint seconds then slept + nat (sint seconds) else slept)"


definition size_t_types :: "(size_t, size_t) memo_types" where
  "size_t_types = \<lparr>equals_itself = (\<lambda>key. True), value_init = 0\<rparr>"






section \<open>The command line\<close>

text \<open>
  How a run of one of the test drivers ends: it returns, it runs into undefined behaviour
  (an \<open>std::expected\<close> without a value is dereferenced, a vector is indexed out of
  range, a floating value that \<open>size_t\<close> cannot hold is converted), or the program
  is ended by an exception nobody catches or by a stack with no room for a further call.
\<close>

datatype 'a outcome = Returned 'a | Undefined_behaviour | Terminated

text \<open>
  The values of \<open>std::errc\<close> that \<open>std::from_chars\<close> reports; \<open>errc_none\<close> is the
  value-initialised \<open>std::errc()\<close>, which stands for success.
\<close>

datatype errc = errc_none | invalid_argument | result_out_of_range

text \<open>
  \<open>std::from_chars\<close> belongs to the standard library: it is the parameter
  \<open>from_chars\<close>, giving for a string the error code and the value written.
\<close>

type_synonym from_chars_t = "string \<Rightarrow> errc \<times> arithmetic_t"

text \<open>\<open>parse\<close> (lines 20-30): the value when the error code is \<open>std::errc()\<close>.\<close>

definition parse :: "from_chars_t \<Rightarrow> string \<Rightarrow> errc + arithmetic_t" where
  "parse from_chars str =
     (case from_chars str of
        (ec, val) \<Rightarrow> if ec = errc_none then Inr val else Inl ec)"

text \<open>
  \<open>*e\<close> on an \<open>std::expected\<close>: the value when there is one; the behaviour is
  undefined when \<open>e\<close> holds an error.
\<close>

definition deref :: "'e + 'a \<Rightarrow> 'a outcome" where
  "deref e = (case e of Inr v \<Rightarrow> Returned v | Inl ec \<Rightarrow> Undefined_behaviour)"

text \<open>
  The pipeline of lines 131-135 (the same in \<open>test_sum\<close> and \<open>test_avg\<close>) on the
  arguments after the program name: \<open>std::ranges::to\<close> walks the whole view, so every
  argument is parsed and dereferenced, in order.
\<close>

fun decode_args :: "from_chars_t \<Rightarrow> string list \<Rightarrow> arithmetic_t list outcome" where
  "decode_args from_chars [] = Returned []"
| "decode_args from_chars (arg # rest) =
     (case deref (parse from_chars arg) of
        Returned v \<Rightarrow>
          (case decode_args from_chars rest of
             Returned vs \<Rightarrow> Returned (v # vs)
           | Undefined_behaviour \<Rightarrow> Undefined_behaviour
           | Terminated \<Rightarrow> Terminated)
      | Undefined_behaviour \<Rightarrow> Undefined_behaviour
      | Terminated \<Rightarrow> Terminated)"

text \<open>
  The conversion of an \<open>arithmetic_t\<close> argument to the \<open>size_t\<close> parameter of the
  functor (lines 138-146): the fraction is dropped, and the behaviour is undefined when
  \<open>size_t\<close> cannot hold the result.
\<close>

definition to_size_t :: "arithmetic_t \<Rightarrow> size_t outcome" where
  "to_size_t x =
     (case x of
        Fin q \<Rightarrow>
          (let t = (if 0 \<le> q then \<lfloor>q\<rfloor> else \<lceil>q\<rceil>)
           in if 0 \<le> t \<and> t < 2 ^ 64 then Returned (word_of_int t) else Undefined_behaviour)
      | PInf \<Rightarrow> Undefined_behaviour
      | NInf \<Rightarrow> Undefined_behaviour
      | NaN \<Rightarrow> Undefined_behaviour)"

text \<open>
  \<open>test_memo\<close> (lines 129-147) on \<open>argv\<close> and the seconds slept so far: the number
  it prints and the seconds slept when it returns. \<open>args[0]\<close> is read with no check
  that \<open>args\<close> has an element. \<open>slow_func\<close> makes no call of the functor, so the
  functor is run with room for one call of it.
\<close>

definition test_memo :: "from_chars_t \<Rightarrow> string list \<Rightarrow> nat \<Rightarrow> (size_t \<times> nat) outcome" where
  "test_memo from_chars argv slept =
     (case decode_args from_chars (drop 1 argv) of
        Returned args \<Rightarrow>
          (case args of
             [] \<Rightarrow> Undefined_behaviour
           | a0 # _ \<Rightarrow>
               (case to_size_t a0 of
                  Returned seconds \<Rightarrow>
                    (case memo_calls (Suc 0) size_t_types (plain slow_func)
                            (replicate 8 seconds) (memo, slept) of
                       None \<Rightarrow> Terminated
                     | Some (rs, (cache, slept')) \<Rightarrow>
                         (case last rs of
                            Inr printed \<Rightarrow> Returned (printed, slept')
                          | Inl e \<Rightarrow> Terminated))
                | Undefined_behaviour \<Rightarrow> Undefined_behaviour
                | Terminated \<Rightarrow> Terminated))
      | Undefined_behaviour \<Rightarrow> Undefined_behaviour
      | Terminated \<Rightarrow> Terminated)"

text \<open>
  \<open>test_fib_memo\<close> (lines 117-127) on \<open>argv\<close> and the global table: what it prints,
  if anything, and the table afterwards. The view is lazy and \<open>take(1)\<close> cuts it after
  the first argument: only that one is parsed, when \<open>arg[0]\<close> is read, and the size
  check of line 124 comes before. \<open>None\<close> is the run in which \<open>fib_memo\<close> never
  returns.
\<close>

definition test_fib_memo ::
    "from_chars_t \<Rightarrow> string list \<Rightarrow> fib_cache \<Rightarrow> (arithmetic_t option \<times> fib_cache) outcome option" where
  "test_fib_memo from_chars argv c =
     (case take 1 (drop 1 argv) of
        [] \<Rightarrow> Some (Returned (None, c))
      | arg # _ \<Rightarrow>
          (case deref (parse from_chars arg) of
             Returned n \<Rightarrow> map_option (\<lambda>(v, c'). Returned (Some v, c')) (fib_memo n c)
           | Undefined_behaviour \<Rightarrow> Some Undefined_behaviour
           | Terminated \<Rightarrow> Some Terminated))"

text \<open>
  A \<open>from_chars\<close> for the examples: it reads \<open>3\<close> and \<open>10\<close> and rejects every
  other string.
\<close>

definition from_chars_example :: from_chars_t where
  "from_chars_example str =
     (if str = ''3'' then (errc_none, Fin 3)
      else if str = ''10'' then (errc_none, Fin 10)
      else (invalid_argument, Fin 0))"

section \<open>Arithmetic on the integers up to \<open>2^53\<close>\<close>

lemma bitlen_one: "bitlen 1 = 1"
  by (simp add: bitlen_alt_def)

lemma expo_of_int: "0 < k \<Longrightarrow> expo (of_int k) = bitlen k - 1"
proof -
  assume k: "0 < k"
  from bitlen_bounds [OF k] have lo: "2 ^ nat (bitlen k - 1) \<le> k" by simp
  have pos: "0 \<le> bitlen k - 1"
    using k by (simp add: bitlen_alt_def)
  have "(2::rat) powi (bitlen k - 1) = of_int (2 ^ nat (bitlen k - 1))"
    using pos by (simp add: power_int_def)
  also have "\<dots> \<le> of_int k"
    using lo by (simp only: of_int_le_iff)
  finally show ?thesis
    by (simp add: expo_def bitlen_one Let_def)
qed

lemma round_half_even_of_int: "round_half_even (of_int m) = m"
  by (simp add: round_half_even_def)

lemma dbl_max_big: "2 ^ 53 < dbl_max"
  by (simp add: dbl_max_def)

lemma rnd_pos_int:
  assumes k: "0 < k" and le: "k \<le> 2 ^ 53"
  shows "rnd (of_int k) = Fin (of_int k)"
proof -
  define e where "e = bitlen k - 1"
  have e0: "0 \<le> e" using k by (simp add: e_def bitlen_alt_def)
  from bitlen_bounds [OF k] have lo: "2 ^ nat e \<le> k" by (simp add: e_def)
  have e53: "e \<le> 53"
  proof (rule ccontr)
    assume "\<not> e \<le> 53"
    then have "54 \<le> nat e" by simp
    then have "(2::int) ^ 54 \<le> 2 ^ nat e" by (rule power_increasing) simp
    with lo le show False by simp
  qed
  have ex: "max (expo \<bar>of_int k\<bar>) (- 1022) = e"
    using k e0 expo_of_int [OF k] by (simp add: e_def)
  have "\<exists>m. rat_of_int k / 2 powi (e - 52) = of_int m"
  proof (cases "e \<le> 52")
    case True
    have "(2::rat) powi (e - 52) = 2 powi (- (52 - e))"
      by simp
    also have "\<dots> = inverse (2 powi (52 - e))"
      by (rule power_int_minus)
    also have "\<dots> = inverse (2 ^ nat (52 - e))"
      using True by (simp add: power_int_def)
    finally have "(2::rat) powi (e - 52) = inverse (2 ^ nat (52 - e))" .
    then have "rat_of_int k / 2 powi (e - 52) = of_int (k * 2 ^ nat (52 - e))"
      by (simp add: divide_inverse)
    then show ?thesis by blast
  next
    case False
    with e53 have e: "e = 53" by simp
    with lo le have "k = 2 ^ 53" by simp
    with e have "rat_of_int k / 2 powi (e - 52) = of_int (2 ^ 52)" by simp
    then show ?thesis by blast
  qed
  then obtain m where m: "rat_of_int k / 2 powi (e - 52) = of_int m" by blast
  have mk: "rat_of_int m * 2 powi (e - 52) = of_int k"
    using m by (simp add: field_simps)
  have small: "rat_of_int k \<le> 2 ^ 53"
    using le by (metis of_int_le_iff of_int_numeral of_int_power)
  show ?thesis
    using k ex m mk small dbl_max_big
    by (simp add: rnd_def Let_def round_half_even_of_int)
qed


lemma rnd_nat: "n \<le> 2 ^ 53 \<Longrightarrow> rnd (of_nat n) = Fin (of_nat n)"
proof (cases "n = 0")
  case True
  then show ?thesis by (simp add: rnd_def)
next
  case False
  assume "n \<le> 2 ^ 53"
  then have "int n \<le> 2 ^ 53"
    by (metis of_nat_le_iff of_nat_numeral of_nat_power)
  with False rnd_pos_int [of "int n"] show ?thesis by simp
qed

lemma dsub_nat:
  "m \<le> n \<Longrightarrow> n \<le> 2 ^ 53 \<Longrightarrow> dsub (Fin (of_nat n)) (Fin (of_nat m)) = Fin (of_nat (n - m))"
  using rnd_nat [of "n - m"] by simp

lemma dadd_nat:
  "a + b \<le> 2 ^ 53 \<Longrightarrow> dadd (Fin (of_nat a)) (Fin (of_nat b)) = Fin (of_nat (a + b))"
  using rnd_nat [of "a + b"] by simp

lemma dle_nat: "dle (Fin (of_nat n)) (Fin 1) = (n \<le> 1)"
  using of_nat_le_iff [of n 1, where ?'a = rat] by simp

lemma dle_not_NaN: "dle n m \<Longrightarrow> n \<noteq> NaN"
  by (cases n) auto

lemma dsub_not_NaN: "dsub n m \<noteq> NaN \<Longrightarrow> n \<noteq> NaN"
  by (cases n) auto

section \<open>Properties of \<open>fib_memo\<close>\<close>

lemma fib_memo_hit:
  "cache_find c n = Some v \<Longrightarrow> fib_memo n c = Some (v, c)"
  by (subst fib_memo.simps) (simp add: cache_index_def)

lemma fib_memo_base:
  "cache_find c n = None \<Longrightarrow> dle n (Fin 1) \<Longrightarrow> fib_memo n c = Some (Fin 1, c(n \<mapsto> Fin 1))"
  by (subst fib_memo.simps) (auto simp add: cache_index_def cache_find_def dest: dle_not_NaN)

lemma fib_memo_rec:
  assumes "cache_find c n = None" and "\<not> dle n (Fin 1)" and "n \<noteq> NaN"
    and "fib_memo (dsub n (Fin 1)) c = Some (a, c1)"
    and "fib_memo (dsub n (Fin 2)) c1 = Some (b, c2)"
  shows "fib_memo n c = Some (dadd a b, c2(n \<mapsto> dadd a b))"
  using assms by (subst fib_memo.simps) (simp add: cache_index_def cache_find_def)

lemma fib_memo_induct_aux:
  assumes run: "fib_memo n c = Some (v, c')"
    and hit: "\<And>n c v. n \<noteq> NaN \<Longrightarrow> c n = Some v \<Longrightarrow> P n c v c"
    and base: "\<And>n c. n \<noteq> NaN \<Longrightarrow> c n = None \<Longrightarrow> dle n (Fin 1) \<Longrightarrow> P n c (Fin 1) (c(n \<mapsto> Fin 1))"
    and rec: "\<And>n c a c1 b c2. n \<noteq> NaN \<Longrightarrow> c n = None \<Longrightarrow> \<not> dle n (Fin 1) \<Longrightarrow>
        P (dsub n (Fin 1)) c a c1 \<Longrightarrow> P (dsub n (Fin 2)) c1 b c2 \<Longrightarrow>
        P n c (dadd a b) (c2(n \<mapsto> dadd a b))"
  shows "P n c v c' \<and> n \<noteq> NaN"
proof -
  have "P n c (fst (v, c')) (snd (v, c')) \<and> n \<noteq> NaN"
  proof (induction rule: fib_memo.raw_induct [OF _ run])
    case (1 f n c y)
    show ?case
    proof (cases "cache_find c n")
      case (Some w)
      then have "n \<noteq> NaN" "c n = Some w"
        by (auto simp: cache_find_def split: if_splits)
      moreover from Some 1(2) have "y = (w, c)"
        by (simp add: cache_index_def)
      ultimately show ?thesis using hit [of n c w] by (simp only: fst_conv snd_conv simp_thms)
    next
      case None
      show ?thesis
      proof (cases "dle n (Fin 1)")
        case True
        then have nn: "n \<noteq> NaN" by (rule dle_not_NaN)
        with None have cn: "c n = None" by (simp add: cache_find_def)
        from None True nn 1(2) have y: "y = (Fin 1, c(n \<mapsto> Fin 1))"
          by (simp add: cache_index_def cache_find_def)
        have "P n c (Fin 1) (c(n \<mapsto> Fin 1))"
          using nn cn True by (rule base)
        with y nn show ?thesis by (simp only: fst_conv snd_conv simp_thms)
      next
        case False
        with None 1(2) obtain a c1 b c2
          where r1: "f (dsub n (Fin 1)) c = Some (a, c1)"
            and r2: "f (dsub n (Fin 2)) c1 = Some (b, c2)"
            and y: "y = cache_index (c2(n \<mapsto> dadd a b)) n"
          by (auto simp: bind_eq_Some_conv)
        from 1(1) [OF r1] have p1: "P (dsub n (Fin 1)) c a c1" and "dsub n (Fin 1) \<noteq> NaN"
          by simp_all
        then have nn: "n \<noteq> NaN" by (auto dest: dsub_not_NaN)
        from 1(1) [OF r2] have p2: "P (dsub n (Fin 2)) c1 b c2" by simp
        from nn None have cn: "c n = None" by (simp add: cache_find_def)
        have "P n c (dadd a b) (c2(n \<mapsto> dadd a b))"
          using nn cn False p1 p2 by (rule rec)
        moreover from y nn have "y = (dadd a b, c2(n \<mapsto> dadd a b))"
          by (simp add: cache_index_def cache_find_def)
        ultimately show ?thesis using nn by (simp only: fst_conv snd_conv simp_thms)
      qed
    qed
  qed
  then show ?thesis by (simp only: fst_conv snd_conv simp_thms)
qed

lemma fib_memo_induct [consumes 1, case_names hit base rec]:
  assumes "fib_memo n c = Some (v, c')"
    and "\<And>n c v. n \<noteq> NaN \<Longrightarrow> c n = Some v \<Longrightarrow> P n c v c"
    and "\<And>n c. n \<noteq> NaN \<Longrightarrow> c n = None \<Longrightarrow> dle n (Fin 1) \<Longrightarrow> P n c (Fin 1) (c(n \<mapsto> Fin 1))"
    and "\<And>n c a c1 b c2. n \<noteq> NaN \<Longrightarrow> c n = None \<Longrightarrow> \<not> dle n (Fin 1) \<Longrightarrow>
        P (dsub n (Fin 1)) c a c1 \<Longrightarrow> P (dsub n (Fin 2)) c1 b c2 \<Longrightarrow>
        P n c (dadd a b) (c2(n \<mapsto> dadd a b))"
  shows "P n c v c'"
  using fib_memo_induct_aux [of n c v c' P, OF assms] by (rule conjunct1)

lemma fib_memo_not_NaN: "fib_memo n c = Some r \<Longrightarrow> n \<noteq> NaN"
  using fib_memo_induct_aux [of n c "fst r" "snd r" "\<lambda>n c v c'. True"] by simp

lemma fib_base: "dle n (Fin 1) \<Longrightarrow> fib n = Some (Fin 1)"
  by (subst fib.simps) simp

lemma fib_rec:
  "\<not> dle n (Fin 1) \<Longrightarrow> fib (dsub n (Fin 1)) = Some a \<Longrightarrow> fib (dsub n (Fin 2)) = Some b \<Longrightarrow>
   fib n = Some (dadd a b)"
  by (subst fib.simps) simp

lemma fib_memo_values:
  assumes "fib_memo n c = Some (v, c')"
  shows "values_agree c \<longrightarrow> values_agree c' \<and> fib n = Some v"
proof -
  have "values_agree c \<longrightarrow> values_agree c' \<and> fib n = Some v"
    using assms
  proof (induction n c v c' rule: fib_memo_induct)
    case (hit n c v)
    then show ?case by (simp add: values_agree_def cache_find_def)
  next
    case (base n c)
    then show ?case by (simp add: values_agree_def cache_find_def fib_base)
  next
    case (rec n c a c1 b c2)
    show ?case
    proof
      assume "values_agree c"
      with rec have 1: "values_agree c1" "fib (dsub n (Fin 1)) = Some a" by simp_all
      with rec have 2: "values_agree c2" "fib (dsub n (Fin 2)) = Some b" by simp_all
      from fib_rec [OF rec(3) 1(2) 2(2)] 2(1)
      show "values_agree (c2(n \<mapsto> dadd a b)) \<and> fib n = Some (dadd a b)"
        by (simp add: values_agree_def cache_find_def)
    qed
  qed
  then show ?thesis by simp
qed

lemma fib_memo_closed:
  assumes "fib_memo n c = Some (v, c')"
  shows "sub_closed c \<longrightarrow>
    sub_closed c' \<and> cache_find c' n \<noteq> None \<and> (\<forall>k. cache_find c k \<noteq> None \<longrightarrow> cache_find c' k \<noteq> None)"
proof -
  have "sub_closed c \<longrightarrow>
    sub_closed c' \<and> cache_find c' n \<noteq> None \<and> (\<forall>k. cache_find c k \<noteq> None \<longrightarrow> cache_find c' k \<noteq> None)"
    using assms
  proof (induction n c v c' rule: fib_memo_induct)
    case (hit n c v)
    then show ?case by (simp add: cache_find_def)
  next
    case (base n c)
    then show ?case by (auto simp add: sub_closed_def cache_find_def)
  next
    case (rec n c a c1 b c2)
    show ?case
    proof
      assume "sub_closed c"
      with rec have 1: "sub_closed c1" "cache_find c1 (dsub n (Fin 1)) \<noteq> None"
        "\<forall>k. cache_find c k \<noteq> None \<longrightarrow> cache_find c1 k \<noteq> None" by simp_all
      with rec have 2: "sub_closed c2" "cache_find c2 (dsub n (Fin 2)) \<noteq> None"
        "\<forall>k. cache_find c1 k \<noteq> None \<longrightarrow> cache_find c2 k \<noteq> None" by simp_all
      let ?c = "c2(n \<mapsto> dadd a b)"
      have up: "cache_find c2 k \<noteq> None \<Longrightarrow> cache_find ?c k \<noteq> None" for k
        by (auto simp add: cache_find_def split: if_splits)
      have "sub_closed ?c"
        unfolding sub_closed_def
      proof (intro allI impI)
        fix k
        assume k: "cache_find ?c k \<noteq> None \<and> \<not> dle k (Fin 1)"
        show "cache_find ?c (dsub k (Fin 1)) \<noteq> None \<and> cache_find ?c (dsub k (Fin 2)) \<noteq> None"
        proof (cases "k = n")
          case True
          with 1(2) 2(2) 2(3) up show ?thesis by blast
        next
          case False
          with k have "cache_find c2 k \<noteq> None"
            by (auto simp add: cache_find_def split: if_splits)
          with k 2(1) up show ?thesis unfolding sub_closed_def by blast
        qed
      qed
      moreover have "cache_find ?c n \<noteq> None"
        using rec(1) by (simp add: cache_find_def)
      moreover have "\<forall>k. cache_find c k \<noteq> None \<longrightarrow> cache_find ?c k \<noteq> None"
        using 1(3) 2(3) up by blast
      ultimately show "sub_closed ?c \<and> cache_find ?c n \<noteq> None \<and>
          (\<forall>k. cache_find c k \<noteq> None \<longrightarrow> cache_find ?c k \<noteq> None)"
        by blast
    qed
  qed
  then show ?thesis by simp
qed

lemma reachable_values: "reachable c \<Longrightarrow> values_agree c"
proof (induction rule: reachable.induct)
  case init
  show ?case by (simp add: values_agree_def cache_find_def fib_memo_cache_def)
next
  case (step c x v c')
  with fib_memo_values [OF step(2)] show ?case by simp
qed

lemma reachable_closed: "reachable c \<Longrightarrow> sub_closed c"
proof (induction rule: reachable.induct)
  case init
  show ?case by (simp add: sub_closed_def cache_find_def fib_memo_cache_def)
next
  case (step c x v c')
  with fib_memo_closed [OF step(2)] show ?case by simp
qed


lemma fib_memo_returns:
  "n \<le> 2 ^ 53 \<Longrightarrow> \<exists>v c'. fib_memo (Fin (of_nat n)) c = Some (v, c')"
proof (induction n arbitrary: c rule: less_induct)
  case (less n)
  let ?n = "Fin (of_nat n)"
  show ?case
  proof (cases "cache_find c ?n")
    case (Some v)
    then show ?thesis using fib_memo_hit by blast
  next
    case None
    show ?thesis
    proof (cases "n \<le> 1")
      case True
      then have "dle ?n (Fin 1)" by (simp add: dle_nat)
      with None show ?thesis using fib_memo_base by blast
    next
      case False
      then have nle: "\<not> dle ?n (Fin 1)" by (simp add: dle_nat)
      from False less.prems have s1: "dsub ?n (Fin 1) = Fin (of_nat (n - 1))"
        using dsub_nat [of 1 n] by simp
      from False less.prems have s2: "dsub ?n (Fin 2) = Fin (of_nat (n - 2))"
        using dsub_nat [of 2 n] by simp
      from False less.prems have "n - 1 < n" "n - 1 \<le> 2 ^ 53" by simp_all
      from less.IH [OF this] obtain a c1
        where "fib_memo (Fin (of_nat (n - 1))) c = Some (a, c1)" by blast
      then have r1: "fib_memo (dsub ?n (Fin 1)) c = Some (a, c1)"
        by (simp only: s1)
      from False less.prems have "n - 2 < n" "n - 2 \<le> 2 ^ 53" by simp_all
      from less.IH [OF this] obtain b c2
        where "fib_memo (Fin (of_nat (n - 2))) c1 = Some (b, c2)" by blast
      then have r2: "fib_memo (dsub ?n (Fin 2)) c1 = Some (b, c2)"
        by (simp only: s2)
      from fib_memo_rec [OF None nle _ r1 r2] show ?thesis by simp
    qed
  qed
qed










lemma fib_spec_bound: "fib_spec n \<le> 2 ^ n"
  by (induction n rule: fib_spec.induct) simp_all

lemma fib_nat:
  "n \<le> 52 \<Longrightarrow> fib (Fin (of_nat n)) = Some (Fin (of_nat (fib_spec n)))"
proof (induction n rule: fib_spec.induct)
  case 1
  show ?case using fib_base [of "Fin (of_nat 0)"] by simp
next
  case 2
  show ?case using fib_base [of "Fin (of_nat (Suc 0))"] by simp
next
  case (3 n)
  let ?n = "Fin (of_nat (Suc (Suc n)))"
  have small: "Suc (Suc n) \<le> 2 ^ 53"
  proof -
    have "Suc (Suc n) \<le> 52" using 3(3) .
    also have "(52::nat) \<le> 2 ^ 53" by simp
    finally show ?thesis .
  qed
  have nle: "\<not> dle ?n (Fin 1)" by (simp add: dle_nat)
  have s1: "dsub ?n (Fin 1) = Fin (of_nat (Suc n))"
    using dsub_nat [of 1 "Suc (Suc n)"] small by simp
  have s2: "dsub ?n (Fin 2) = Fin (of_nat n)"
    using dsub_nat [of 2 "Suc (Suc n)"] small by simp
  from 3 have f1: "fib (dsub ?n (Fin 1)) = Some (Fin (of_nat (fib_spec (Suc n))))"
    unfolding s1 by simp
  from 3 have f2: "fib (dsub ?n (Fin 2)) = Some (Fin (of_nat (fib_spec n)))"
    unfolding s2 by simp
  have "fib_spec (Suc n) + fib_spec n = fib_spec (Suc (Suc n))" by simp
  also have "\<dots> \<le> 2 ^ Suc (Suc n)" by (rule fib_spec_bound)
  also have "\<dots> \<le> (2::nat) ^ 53" using 3(3) by (intro power_increasing) simp_all
  finally have "dadd (Fin (of_nat (fib_spec (Suc n)))) (Fin (of_nat (fib_spec n)))
      = Fin (of_nat (fib_spec (Suc n) + fib_spec n))"
    by (rule dadd_nat)
  with fib_rec [OF nle f1 f2] show ?case by simp
qed

text \<open>
  C2. On every table the program can hold, whatever calls filled it, and for every
  \<open>n\<close> from 0 to 30, \<open>fib_memo(n)\<close> returns the value of the closed recursive
  definition, and so does the naive \<open>fib\<close>.
\<close>

theorem fib_memo_refines_fib_spec:
  assumes "reachable c" and "n \<le> 30"
  shows "\<exists>c'. fib_memo (Fin (of_nat n)) c = Some (Fin (of_nat (fib_spec n)), c') \<and>
              fib (Fin (of_nat n)) = Some (Fin (of_nat (fib_spec n)))"
proof -
  from assms(2) have "n \<le> 2 ^ 53"
    by (rule order_trans) simp
  then obtain v c' where run: "fib_memo (Fin (of_nat n)) c = Some (v, c')"
    using fib_memo_returns by blast
  from fib_memo_values [OF run] reachable_values [OF assms(1)]
  have "fib (Fin (of_nat n)) = Some v" by simp
  moreover from assms(2) have "fib (Fin (of_nat n)) = Some (Fin (of_nat (fib_spec n)))"
    by (intro fib_nat) simp
  ultimately show ?thesis using run by simp
qed

text \<open>
  \<open>fib_memo(10)\<close> on the empty table returns 89, and \<open>fib_memo(5)\<close> on the table it
  leaves returns 8.
\<close>

theorem fib_memo_refines_fib_spec_witness:
  "\<exists>c1 c2. reachable fib_memo_cache \<and> (10::nat) \<le> 30 \<and>
     fib_memo (Fin 10) fib_memo_cache = Some (Fin 89, c1) \<and>
     reachable c1 \<and> (5::nat) \<le> 30 \<and>
     fib_memo (Fin 5) c1 = Some (Fin 8, c2) \<and> fib (Fin 5) = Some (Fin 8)"
proof -
  have r0: "reachable fib_memo_cache" by (rule reachable.init)
  have v10: "fib_spec 10 = 89" and v5: "fib_spec 5 = 8" by code_simp+
  from fib_memo_refines_fib_spec [OF r0, of 10] v10
  obtain c1 where run1: "fib_memo (Fin 10) fib_memo_cache = Some (Fin 89, c1)" by auto
  from reachable.step [OF r0 run1] have r1: "reachable c1" .
  from fib_memo_refines_fib_spec [OF r1, of 5] v5
  obtain c2 where run2: "fib_memo (Fin 5) c1 = Some (Fin 8, c2)" "fib (Fin 5) = Some (Fin 8)" by auto
  from r0 run1 r1 run2 show ?thesis by auto
qed

lemma closed_down:
  assumes cl: "sub_closed c"
  shows "2 \<le> n \<Longrightarrow> n \<le> 2 ^ 53 \<Longrightarrow> cache_find c (Fin (of_nat n)) \<noteq> None \<Longrightarrow> k \<le> n \<Longrightarrow>
         cache_find c (Fin (of_nat k)) \<noteq> None"
proof (induction n arbitrary: k rule: less_induct)
  case (less n)
  let ?n = "Fin (of_nat n)"
  from less.prems have nle: "\<not> dle ?n (Fin 1)" by (simp add: dle_nat)
  from less.prems have s1: "dsub ?n (Fin 1) = Fin (of_nat (n - 1))"
    using dsub_nat [of 1 n] by simp
  from less.prems have s2: "dsub ?n (Fin 2) = Fin (of_nat (n - 2))"
    using dsub_nat [of 2 n] by simp
  from cl less.prems(3) nle
  have f1: "cache_find c (Fin (of_nat (n - 1))) \<noteq> None"
    and f2: "cache_find c (Fin (of_nat (n - 2))) \<noteq> None"
    unfolding sub_closed_def s1 [symmetric] s2 [symmetric] by blast+
  show ?case
  proof (cases "k = n")
    case True
    with less.prems show ?thesis by simp
  next
    case False
    with less.prems have k: "k \<le> n - 1" by simp
    show ?thesis
    proof (cases "2 \<le> n - 1")
      case True
      from less.prems have "n - 1 < n" "n - 1 \<le> 2 ^ 53" by simp_all
      from less.IH [OF this(1) True this(2) f1 k] show ?thesis .
    next
      case False
      with less.prems have n2: "n = 2" by simp
      with k have "k = 0 \<or> k = 1" by auto
      with f1 f2 n2 show ?thesis by auto
    qed
  qed
qed

text \<open>
  C7, as the claim states it, fails at \<open>n = 1\<close>: the base case stores the entry for 1
  and makes no recursive call, so the table it leaves has no entry for 0.
\<close>

theorem fib_memo_single_entry:
  "fib_memo (Fin 1) fib_memo_cache = Some (Fin 1, [Fin 1 \<mapsto> Fin 1]) \<and>
   [Fin 1 \<mapsto> Fin 1] (Fin 0) = (None :: arithmetic_t option)"
  using fib_memo_base [of fib_memo_cache "Fin 1"]
  by (simp add: cache_find_def fib_memo_cache_def)

text \<open>
  C7, amended. For every non-negative integer \<open>n\<close> up to \<open>2^53\<close> other than 1, on a
  table the program can hold: when \<open>fib_memo(n)\<close> returns, the table has an entry for
  every integer \<open>k\<close> from 0 to \<open>n\<close>.
\<close>

theorem fib_memo_fills_table:
  assumes "reachable c" and "n \<le> 2 ^ 53" and "n \<noteq> 1"
    and "fib_memo (Fin (of_nat n)) c = Some (v, c')" and "k \<le> n"
  shows "c' (Fin (of_nat k)) \<noteq> None"
proof -
  from fib_memo_closed [OF assms(4)] reachable_closed [OF assms(1)]
  have cl: "sub_closed c'" and top: "cache_find c' (Fin (of_nat n)) \<noteq> None"
    by simp_all
  have "cache_find c' (Fin (of_nat k)) \<noteq> None"
  proof (cases "2 \<le> n")
    case True
    from closed_down [OF cl True assms(2) top assms(5)] show ?thesis .
  next
    case False
    with assms(3) assms(5) have "k = n" by simp
    with top show ?thesis by simp
  qed
  then show ?thesis by (simp add: cache_find_def)
qed

text \<open>
  \<open>fib_memo(2)\<close> on the empty table: the entries for 0, 1 and 2 are there.
\<close>

theorem fib_memo_fills_table_witness:
  "\<exists>v c'. reachable fib_memo_cache \<and> (2::nat) \<le> 2 ^ 53 \<and> (2::nat) \<noteq> 1 \<and>
     fib_memo (Fin 2) fib_memo_cache = Some (v, c') \<and> (0::nat) \<le> 2 \<and>
     c' (Fin 0) \<noteq> None \<and> c' (Fin 1) \<noteq> None \<and> c' (Fin 2) \<noteq> None"
proof -
  have r0: "reachable fib_memo_cache" by (rule reachable.init)
  obtain v c' where run: "fib_memo (Fin (of_nat 2)) fib_memo_cache = Some (v, c')"
    using fib_memo_returns [of 2 fib_memo_cache] by auto
  from fib_memo_fills_table [OF r0 _ _ run, of 0] fib_memo_fills_table [OF r0 _ _ run, of 1]
    fib_memo_fills_table [OF r0 _ _ run, of 2] r0 run
  show ?thesis by auto
qed

text \<open>
  C9. On a table the program can hold, \<open>fib_memo(n)\<close> for an \<open>n <= 1\<close>, negative,
  fractional or minus infinity included, returns 1 without a recursive call, and the
  table then maps \<open>n\<close> to 1.
\<close>

theorem fib_memo_base_case:
  assumes "reachable c" and "dle n (Fin 1)"
  shows "fib_memo n c = Some (Fin 1, c(n \<mapsto> Fin 1))"
proof (cases "cache_find c n")
  case None
  from fib_memo_base [OF None assms(2)] show ?thesis .
next
  case (Some v)
  with reachable_values [OF assms(1)] have "fib n = Some v"
    by (simp add: values_agree_def)
  with fib_base [OF assms(2)] have v: "v = Fin 1" by simp
  with Some have "c n = Some (Fin 1)"
    by (simp add: cache_find_def split: if_splits)
  then have "c(n \<mapsto> Fin 1) = c" by (rule map_upd_triv)
  with fib_memo_hit [OF Some] v show ?thesis by simp
qed

text \<open>
  The inputs \<open>-3\<close>, \<open>1/2\<close> and minus infinity on the empty table.
\<close>

theorem fib_memo_base_case_witness:
  "reachable fib_memo_cache \<and> dle (Fin (- 3)) (Fin 1) \<and>
   fib_memo (Fin (- 3)) fib_memo_cache = Some (Fin 1, fib_memo_cache(Fin (- 3) \<mapsto> Fin 1)) \<and>
   dle (Fin (1 / 2)) (Fin 1) \<and>
   fib_memo (Fin (1 / 2)) fib_memo_cache = Some (Fin 1, fib_memo_cache(Fin (1 / 2) \<mapsto> Fin 1)) \<and>
   dle NInf (Fin 1) \<and>
   fib_memo NInf fib_memo_cache = Some (Fin 1, fib_memo_cache(NInf \<mapsto> Fin 1))"
proof -
  have r0: "reachable fib_memo_cache" by (rule reachable.init)
  from fib_memo_base_case [OF r0, of "Fin (- 3)"] fib_memo_base_case [OF r0, of "Fin (1 / 2)"]
    fib_memo_base_case [OF r0, of NInf] r0
  show ?thesis by simp
qed

section \<open>Properties of the memoization adapter\<close>









text \<open>
  More room on the stack never changes what a call of the functor returns.
\<close>

lemma run_body_mono:
  assumes "\<And>k s r. self k s = Some r \<Longrightarrow> self' k s = Some r"
  shows "run_body self b c = Some r \<Longrightarrow> run_body self' b c = Some r"
proof (induction b arbitrary: c)
  case (Return v w)
  then show ?case by simp
next
  case (Throw e w)
  then show ?case by simp
next
  case (Call k w cont)
  from Call.prems obtain r1 c1 w1
    where 1: "self k (c, w) = Some (r1, (c1, w1))"
      and 2: "run_body self (cont r1 w1) c1 = Some r"
    by (auto split: option.splits)
  from assms [OF 1] have "self' k (c, w) = Some (r1, (c1, w1))" .
  moreover have "run_body self' (cont r1 w1) c1 = Some r"
    using 2 by (intro Call.IH [of "cont r1" "cont r1 w1"]) (rule rangeI)+
  ultimately show ?case by simp
qed

lemma memo_call_more_frames:
  "memo_call frames T func key s = Some r \<Longrightarrow> memo_call (Suc frames) T func key s = Some r"
proof (induction frames arbitrary: key s r)
  case 0
  then show ?case by simp
next
  case (Suc frames)
  obtain cache w where s: "s = (cache, w)" by (cases s)
  show ?case
  proof (cases "memo_find T cache key")
    case (Some v)
    with Suc.prems s show ?thesis by simp
  next
    case None
    with Suc.prems s obtain r0
      where inner: "run_body (memo_call frames T func) (func key w) cache = Some r0"
      by (auto split: option.splits)
    have "run_body (memo_call (Suc frames) T func) (func key w) cache = Some r0"
      using Suc.IH inner by (rule run_body_mono)
    with Suc.prems s None inner show ?thesis
      by (simp del: memo_call.simps add: memo_call.simps(2) [of "Suc frames"] memo_call.simps(2) [of frames])
  qed
qed







section \<open>Properties of the composite key hasher\<close>

lemma tuple_hash_defined:
  "distinct (map ty (x # xs)) \<Longrightarrow> \<exists>r. tuple_hash ty h (x # xs) = Some r"
proof (induction xs arbitrary: x)
  case Nil
  show ?case by simp
next
  case (Cons y ys)
  from Cons.prems have "distinct (map ty (y # ys))" by simp
  from Cons.IH [OF this]
  obtain r where r: "tuple_hash ty h (y # ys) = Some r" by blast
  from Cons.prems show ?case
    by (subst tuple_hash.simps) (simp add: r Let_def del: tuple_hash.simps)
qed

text \<open>
  C3, as the claim states it, fails on three elements: the nested hash of \<open>(1, 2, 3)\<close>,
  an \<open>unsigned char\<close>, an \<open>unsigned short\<close> and a \<open>size_t\<close>, is not the
  left-to-right fold.
\<close>

theorem tuple_hash_not_left_fold:
  "tuple_hash type_of_elem hash_elem [UChar 1, UShort 2, Size 3]
     \<noteq> spec_tuple_hash hash_elem [UChar 1, UShort 2, Size 3]"
  by (simp add: mix_constant_def spec_combine_def)

text \<open>
  C3, amended. For two or more values of pairwise distinct types the result is the
  combining step applied to the hash of the first element, as the running hash, and to
  the result of the hasher on the tuple of the remaining elements, in the place of the
  element hash: the recursion nests to the right. For exactly two values this is the
  left-to-right fold of the specification.
\<close>

theorem tuple_hash_nested:
  assumes "distinct (map ty (x # y # ys))"
  shows "(\<exists>r. tuple_hash ty h (y # ys) = Some r \<and>
              tuple_hash ty h (x # y # ys) = Some (spec_combine (h x) r)) \<and>
         tuple_hash ty h [x, y] = spec_tuple_hash h [x, y]"
proof -
  from assms have "distinct (map ty (y # ys))" by simp
  from tuple_hash_defined [OF this, of h]
  obtain r where r: "tuple_hash ty h (y # ys) = Some r" by blast
  from assms have "tuple_hash ty h (x # y # ys) = Some (spec_combine (h x) r)"
    by (subst tuple_hash.simps) (simp add: r Let_def spec_combine_def del: tuple_hash.simps)
  moreover from assms have "tuple_hash ty h [x, y] = spec_tuple_hash h [x, y]"
    by (simp add: spec_combine_def Let_def)
  ultimately show ?thesis using r by blast
qed

text \<open>
  On \<open>(1, 2, 3)\<close> as above: the hash of \<open>(2, 3)\<close> is combined into the hash of the
  first element, and on \<open>(1, 2)\<close> the hasher and the fold agree.
\<close>

theorem tuple_hash_nested_witness:
  "distinct (map type_of_elem [UChar 1, UShort 2, Size 3]) \<and>
   tuple_hash type_of_elem hash_elem [UShort 2, Size 3] = Some 0x9E377A3E \<and>
   tuple_hash type_of_elem hash_elem [UChar 1, UShort 2, Size 3]
     = Some (spec_combine 1 0x9E377A3E) \<and>
   tuple_hash type_of_elem hash_elem [UChar 1, UShort 2]
     = spec_tuple_hash hash_elem [UChar 1, UShort 2]"
proof -
  have d: "distinct (map type_of_elem [UChar 1, UShort 2, Size 3])" by simp
  have t: "tuple_hash type_of_elem hash_elem [UShort 2, Size 3] = Some 0x9E377A3E"
    by (simp add: mix_constant_def)
  from tuple_hash_nested [OF d, of hash_elem] d t show ?thesis
    by simp
qed

text \<open>
  C4, as the claim states it, fails: there is no hasher for the empty argument list, so
  no hash value comes out of it.
\<close>

theorem tuple_hash_empty_undefined:
  "tuple_hash type_of_elem hash_elem [] = None"
  by simp

text \<open>
  C4, amended. Among the argument lists of pairwise distinct types the hasher exists for
  those with at least one element and for no other; on a single element it yields the
  hash of that element.
\<close>

theorem tuple_hash_arity:
  assumes "distinct (map ty xs)"
  shows "(tuple_hash ty h xs = None) = (xs = []) \<and> tuple_hash ty h [x] = Some (h x)"
proof (cases xs)
  case Nil
  then show ?thesis by simp
next
  case (Cons y ys)
  with assms tuple_hash_defined [of ty y ys h] show ?thesis by auto
qed

text \<open>
  The lists \<open>()\<close> and \<open>(7)\<close>: no hasher for the first, the hash 7 for the second.
\<close>

theorem tuple_hash_arity_witness:
  "distinct (map type_of_elem []) \<and>
   (tuple_hash type_of_elem hash_elem [] = None) = (([] :: elem list) = []) \<and>
   distinct (map type_of_elem [Size 7]) \<and>
   (tuple_hash type_of_elem hash_elem [Size 7] = None) = ([Size 7] = []) \<and>
   tuple_hash type_of_elem hash_elem [Size 7] = Some 7"
  using tuple_hash_arity [of type_of_elem "[]" hash_elem "Size 7"]
    tuple_hash_arity [of type_of_elem "[Size 7]" hash_elem "Size 7"]
  by simp

section \<open>Properties of the command line\<close>

text \<open>
  C6. The claim asks for a reported error; the code dereferences the result of \<open>parse\<close>
  with no check. On the argument \<open>abc\<close>, which \<open>from_chars\<close> rejects, \<open>test_memo\<close>
  runs into undefined behaviour.
\<close>

theorem test_memo_unchecked_parse:
  "parse from_chars_example ''abc'' = Inl invalid_argument \<and>
   test_memo from_chars_example [''prog'', ''abc''] 0 = Undefined_behaviour"
  by (simp add: test_memo_def parse_def deref_def from_chars_example_def)

text \<open>
  C10. With no argument after the program name \<open>test_memo\<close> indexes the empty vector,
  which is undefined behaviour, while \<open>test_fib_memo\<close> returns, printing nothing and
  leaving the table as it is.
\<close>

theorem test_memo_no_argument:
  "test_memo from_chars [prog] slept = Undefined_behaviour \<and>
   test_fib_memo from_chars [prog] c = Some (Returned (None, c))"
  by (simp add: test_memo_def test_fib_memo_def)

end
